theory Spec2Isabelle
  imports Main
begin

section \<open>The resource cache and subscription manager of synapse\<close>

text \<open>
  The class \<open>Manager\<close> keeps three JavaScript maps: \<open>cache\<close> (path to last known
  value), \<open>dependents\<close> (path to the set of clients subscribed to it) and
  \<open>subscriptions\<close> (client to the set of paths it is subscribed to). Every method is
  embedded below as a function that takes the state and returns the new one.

  \<^item> A JavaScript \<open>Map\<close> is a partial function; \<open>has\<close> is membership in its domain and
    \<open>get\<close> of a missing key is \<open>undefined\<close>.
  \<^item> A JavaScript \<open>Set\<close> is the list of its members in insertion order. \<open>add\<close> appends a
    new member and leaves the set alone when the member is there already, so the lists of
    every state the program builds have no duplicates.
  \<^item> Each \<open>Set\<close> object is stored under exactly one key of one map, so a map from keys to
    lists is a faithful store: there is no aliasing between keys.
  \<^item> A client is a callback function used as a map key. Only its identity matters to the
    manager, so a client is a number, and calling it appends a \<open>Notify\<close> event to a trace.
    The event also records the manager as it stands when the callback runs. Callbacks do
    not call back into the manager.
  \<^item> The generator (\<open>controller.request\<close>) is external. It is a parameter \<open>gen\<close>: a function
    of the verb, the path, the remaining arguments and a backend state of its own, which
    returns a reply and the new backend state. Each call appends a \<open>Call\<close> event.
  \<^item> A \<open>TypeError\<close> raised by a method call on \<open>undefined\<close> is the value \<open>Inl TypeError\<close>.
    The state is returned beside it, since what was mutated before the throw stays mutated.
  \<^item> An operation that its caller awaits runs to completion before the next one starts:
    \<open>await\<close> is sequential composition.
  \<^item> The mutating verbs call \<open>this.update(path)\<close> without awaiting it. The call runs up to
    the \<open>await\<close> inside \<open>update\<close>, so the generator is called before the verb returns, and
    the rest of \<open>update\<close> is left in the list \<open>pending\<close> of the world, with the path and the
    reply it will be resumed with. The operation \<open>Resume\<close> runs one of them, in any order.
\<close>

subsection \<open>Values, replies and the state\<close>

datatype 'v jsval = Undefined | Null | Val 'v

type_synonym client = nat

datatype error = TypeError

text \<open>
  Modelled from the spec: the class \<open>Reply\<close> (\<open>require("./Reply")\<close>) is not among the
  sources. The spec gives a result a status, a payload and an error predicate; the
  predicate \<open>isError()\<close> is the field \<open>isError\<close> here, so nothing is assumed about which
  statuses are errors.
\<close>

record 'v reply =
  status :: int
  payload :: "'v jsval"
  isError :: bool

text \<open>
  Modelled from the spec: \<open>Reply.OK(value)\<close> is not among the sources either. The spec
  calls it "a success Result wrapping the cached value".
\<close>

definition OK :: "'v jsval \<Rightarrow> 'v reply" where
  "OK v = \<lparr>status = 200, payload = v, isError = False\<rparr>"

record 'v manager =
  cache :: "string \<rightharpoonup> 'v jsval"
  dependents :: "string \<rightharpoonup> client list"
  subscriptions :: "client \<rightharpoonup> string list"

datatype 'v event =
    Call string string "'v jsval list"
  | Notify client string "'v jsval" "'v manager"

record ('v, 'r) world =
  mgr :: "'v manager"
  backend :: 'r
  trace :: "'v event list"
  pending :: "(string \<times> 'v reply) list"

type_synonym ('v, 'r) resolver =
  "string \<Rightarrow> string \<Rightarrow> 'v jsval list \<Rightarrow> 'r \<Rightarrow> 'v reply \<times> 'r"

text \<open>The constructor: three empty maps. Nothing has been called and nothing is pending.\<close>

definition new_manager :: "'v manager" where
  "new_manager = \<lparr>cache = Map.empty, dependents = Map.empty, subscriptions = Map.empty\<rparr>"

definition new_world :: "'r \<Rightarrow> ('v, 'r) world" where
  "new_world b = \<lparr>mgr = new_manager, backend = b, trace = [], pending = []\<rparr>"

subsection \<open>Sets\<close>

definition set_add :: "'a \<Rightarrow> 'a list \<Rightarrow> 'a list" where
  "set_add x xs = (if x \<in> set xs then xs else xs @ [x])"

definition set_delete :: "'a \<Rightarrow> 'a list \<Rightarrow> 'a list" where
  "set_delete x xs = removeAll x xs"

text \<open>\<open>map.get(key)\<close> where the result is used as a set: the members, none when undefined.\<close>

definition members :: "('k \<rightharpoonup> 'a list) \<Rightarrow> 'k \<Rightarrow> 'a list" where
  "members m k = (case m k of None \<Rightarrow> [] | Some xs \<Rightarrow> xs)"

definition cache_get :: "'v manager \<Rightarrow> string \<Rightarrow> 'v jsval" where
  "cache_get m path = (case cache m path of None \<Rightarrow> Undefined | Some v \<Rightarrow> v)"

subsection \<open>subscribe\<close>

definition subscribe :: "client \<Rightarrow> string \<Rightarrow> 'v manager \<Rightarrow> 'v manager" where
  "subscribe client path m =
    (let m1 = (if subscriptions m client = None
               then m\<lparr>subscriptions := (subscriptions m)(client \<mapsto> [])\<rparr> else m);
         m2 = (if dependents m1 path = None
               then m1\<lparr>dependents := (dependents m1)(path \<mapsto> [])\<rparr> else m1);
         m3 = m2\<lparr>dependents :=
                 (dependents m2)(path \<mapsto> set_add client (members (dependents m2) path))\<rparr>
     in m3\<lparr>subscriptions :=
             (subscriptions m3)(client \<mapsto> set_add path (members (subscriptions m3) client))\<rparr>)"

subsection \<open>unsubscribe\<close>

text \<open>
  The body of the \<open>forEach\<close> in \<open>unsubscribe\<close>, for one target. \<open>subscriptions\<close> is
  \<open>this.subscriptions.get(client)\<close>, read once before the loop; the set object it names is
  the one stored in the map, so the model reads the map. Calling \<open>delete\<close> on \<open>undefined\<close>
  throws.
\<close>

definition unsubscribe_target ::
  "client \<Rightarrow> string \<Rightarrow> 'v manager \<Rightarrow> (error + unit) \<times> 'v manager" where
  "unsubscribe_target client target m =
    (case subscriptions m client of
       None \<Rightarrow> (Inl TypeError, m)
     | Some subs \<Rightarrow>
        (let m1 = m\<lparr>subscriptions := (subscriptions m)(client \<mapsto> set_delete target subs)\<rparr>
         in case dependents m1 target of
              None \<Rightarrow> (Inl TypeError, m1)
            | Some deps \<Rightarrow>
                (Inr (), m1\<lparr>dependents := (dependents m1)(target \<mapsto> set_delete client deps)\<rparr>)))"

text \<open>
  \<open>remove.forEach\<close> when \<open>remove\<close> is the client's own set of subscriptions, which the body
  shrinks while the loop runs. \<open>Set.prototype.forEach\<close> visits the members in insertion
  order and skips one that was deleted before its turn; the list is the members at the
  start of the loop, and the test is whether the member is still there. Nothing is added
  to the set during the loop.
\<close>

fun unsubscribe_each ::
  "client \<Rightarrow> string list \<Rightarrow> 'v manager \<Rightarrow> (error + unit) \<times> 'v manager" where
  "unsubscribe_each client [] m = (Inr (), m)"
| "unsubscribe_each client (target # rest) m =
    (if target \<in> set (members (subscriptions m) client)
     then (case unsubscribe_target client target m of
             (Inl e, m') \<Rightarrow> (Inl e, m')
           | (Inr u, m') \<Rightarrow> unsubscribe_each client rest m')
     else unsubscribe_each client rest m)"

text \<open>
  The parameter \<open>path\<close> defaults to \<open>null\<close> (\<open>None\<close>). The test \<open>path ? [path] : subscriptions\<close>
  is JavaScript truthiness: \<open>null\<close> and the empty string both select the whole set.
  \<open>undefined.forEach\<close> throws.
\<close>

definition truthy :: "string option \<Rightarrow> bool" where
  "truthy path = (case path of None \<Rightarrow> False | Some p \<Rightarrow> p \<noteq> [])"

definition unsubscribe ::
  "client \<Rightarrow> string option \<Rightarrow> 'v manager \<Rightarrow> (error + unit) \<times> 'v manager" where
  "unsubscribe client path m =
    (case (if truthy path then path else None) of
       Some target \<Rightarrow> unsubscribe_target client target m
     | None \<Rightarrow>
        (case subscriptions m client of
           None \<Rightarrow> (Inl TypeError, m)
         | Some subs \<Rightarrow> unsubscribe_each client subs m))"

subsection \<open>update\<close>

definition generator ::
  "('v, 'r) resolver \<Rightarrow> string \<Rightarrow> string \<Rightarrow> 'v jsval list \<Rightarrow> ('v, 'r) world
    \<Rightarrow> 'v reply \<times> ('v, 'r) world" where
  "generator gen verb path args w =
    (let (result, b) = gen verb path args (backend w)
     in (result, w\<lparr>backend := b, trace := trace w @ [Call verb path args]\<rparr>))"

text \<open>Calling the client: \<open>client(path, value)\<close>.\<close>

definition invoke :: "client \<Rightarrow> string \<Rightarrow> 'v jsval \<Rightarrow> ('v, 'r) world \<Rightarrow> ('v, 'r) world" where
  "invoke client path v w = w\<lparr>trace := trace w @ [Notify client path v (mgr w)]\<rparr>"

text \<open>
  The fan-out of the success branch. The body does not touch the set it iterates over, so
  every member at the start of the loop is visited.
\<close>

fun notify_each :: "string \<Rightarrow> client list \<Rightarrow> ('v, 'r) world \<Rightarrow> ('v, 'r) world" where
  "notify_each path [] w = w"
| "notify_each path (client # rest) w =
    notify_each path rest (invoke client path (cache_get (mgr w) path) w)"

text \<open>
  The fan-out of the 404 branch: \<open>this.unsubscribe(client, path)\<close>, then
  \<open>client(path, undefined)\<close>. The body deletes from the set the loop iterates over, so a
  member is visited only when it is still there at its turn. An exception of
  \<open>unsubscribe\<close> ends the loop.
\<close>

fun evict_each ::
  "string \<Rightarrow> client list \<Rightarrow> ('v, 'r) world \<Rightarrow> (error + unit) \<times> ('v, 'r) world" where
  "evict_each path [] w = (Inr (), w)"
| "evict_each path (client # rest) w =
    (if client \<in> set (members (dependents (mgr w)) path)
     then (case unsubscribe client (Some path) (mgr w) of
             (Inl e, m') \<Rightarrow> (Inl e, w\<lparr>mgr := m'\<rparr>)
           | (Inr u, m') \<Rightarrow> evict_each path rest (invoke client path Undefined (w\<lparr>mgr := m'\<rparr>)))
     else evict_each path rest w)"

definition update ::
  "('v, 'r) resolver \<Rightarrow> string \<Rightarrow> ('v, 'r) world \<Rightarrow> (error + 'v reply) \<times> ('v, 'r) world" where
  "update gen path w =
    (let (result, w1) = generator gen ''get'' path [] w
     in if \<not> isError result then
          (let w2 = w1\<lparr>mgr := (mgr w1)\<lparr>cache := (cache (mgr w1))(path \<mapsto> payload result)\<rparr>\<rparr>
           in case dependents (mgr w2) path of
                None \<Rightarrow> (Inr result, w2)
              | Some deps \<Rightarrow> (Inr result, notify_each path deps w2))
        else if status result = 404 then
          (let w2 = w1\<lparr>mgr := (mgr w1)\<lparr>cache := (cache (mgr w1))(path := None)\<rparr>\<rparr>
           in case dependents (mgr w2) path of
                None \<Rightarrow> (Inr result, w2)
              | Some deps \<Rightarrow>
                  (case evict_each path deps w2 of
                     (Inl e, w3) \<Rightarrow> (Inl e, w3)
                   | (Inr u, w3) \<Rightarrow> (Inr result, w3)))
        else (Inr result, w1))"

text \<open>
  The statements of \<open>update\<close> after its \<open>await\<close>, for the reply the generator delivered:
  what runs when a suspended \<open>update\<close> is resumed.
\<close>

definition update_resume ::
  "string \<Rightarrow> 'v reply \<Rightarrow> ('v, 'r) world \<Rightarrow> (error + 'v reply) \<times> ('v, 'r) world" where
  "update_resume path result w1 =
    (if \<not> isError result then
       (let w2 = w1\<lparr>mgr := (mgr w1)\<lparr>cache := (cache (mgr w1))(path \<mapsto> payload result)\<rparr>\<rparr>
        in case dependents (mgr w2) path of
             None \<Rightarrow> (Inr result, w2)
           | Some deps \<Rightarrow> (Inr result, notify_each path deps w2))
     else if status result = 404 then
       (let w2 = w1\<lparr>mgr := (mgr w1)\<lparr>cache := (cache (mgr w1))(path := None)\<rparr>\<rparr>
        in case dependents (mgr w2) path of
             None \<Rightarrow> (Inr result, w2)
           | Some deps \<Rightarrow>
               (case evict_each path deps w2 of
                  (Inl e, w3) \<Rightarrow> (Inl e, w3)
                | (Inr u, w3) \<Rightarrow> (Inr result, w3)))
     else (Inr result, w1))"

text \<open>
  \<open>this.update(path)\<close> called and not awaited: \<open>update\<close> runs up to its \<open>await\<close>, which calls
  the generator, and is suspended there.
\<close>

definition update_start :: "('v, 'r) resolver \<Rightarrow> string \<Rightarrow> ('v, 'r) world \<Rightarrow> ('v, 'r) world" where
  "update_start gen path w =
    (let (result, w1) = generator gen ''get'' path [] w
     in w1\<lparr>pending := pending w1 @ [(path, result)]\<rparr>)"

text \<open>
  The suspended \<open>update\<close> at position \<open>i\<close> of \<open>pending\<close> is resumed. Nobody awaits it:
  its reply, and an exception it ends with, are dropped.
\<close>

definition resume :: "nat \<Rightarrow> ('v, 'r) world \<Rightarrow> ('v, 'r) world" where
  "resume i w =
    (if i < length (pending w)
     then (let (path, result) = pending w ! i
           in snd (update_resume path result
                (w\<lparr>pending := take i (pending w) @ drop (Suc i) (pending w)\<rparr>)))
     else w)"

subsection \<open>get and the mutating verbs\<close>

text \<open>The second parameter of \<open>get\<close>, \<open>data\<close>, is never read and is left out.\<close>

definition get ::
  "('v, 'r) resolver \<Rightarrow> string \<Rightarrow> ('v, 'r) world \<Rightarrow> (error + 'v reply) \<times> ('v, 'r) world" where
  "get gen path w =
    (if cache (mgr w) path \<noteq> None then (Inr (OK (cache_get (mgr w) path)), w)
     else update gen path w)"

text \<open>
  \<open>post\<close>, \<open>put\<close>, \<open>patch\<close> and \<open>delete\<close>. \<open>this.update(path)\<close> is not awaited: the verb
  returns with the refresh started and still pending.
\<close>

definition post ::
  "('v, 'r) resolver \<Rightarrow> string \<Rightarrow> 'v jsval \<Rightarrow> ('v, 'r) world
    \<Rightarrow> (error + 'v reply) \<times> ('v, 'r) world" where
  "post gen path data w =
    (let (result, w1) = generator gen ''post'' path [data] w
     in if \<not> isError result then (Inr result, update_start gen path w1)
        else (Inr result, w1))"

definition put ::
  "('v, 'r) resolver \<Rightarrow> string \<Rightarrow> 'v jsval \<Rightarrow> ('v, 'r) world
    \<Rightarrow> (error + 'v reply) \<times> ('v, 'r) world" where
  "put gen path data w =
    (let (result, w1) = generator gen ''put'' path [data] w
     in if \<not> isError result then (Inr result, update_start gen path w1)
        else (Inr result, w1))"

definition patch ::
  "('v, 'r) resolver \<Rightarrow> string \<Rightarrow> 'v jsval \<Rightarrow> ('v, 'r) world
    \<Rightarrow> (error + 'v reply) \<times> ('v, 'r) world" where
  "patch gen path data w =
    (let (result, w1) = generator gen ''patch'' path [data] w
     in if \<not> isError result then (Inr result, update_start gen path w1)
        else (Inr result, w1))"

definition delete ::
  "('v, 'r) resolver \<Rightarrow> string \<Rightarrow> ('v, 'r) world \<Rightarrow> (error + 'v reply) \<times> ('v, 'r) world" where
  "delete gen path w =
    (let (result, w1) = generator gen ''delete'' path [Null] w
     in if \<not> isError result then (Inr result, update_start gen path w1)
        else (Inr result, w1))"

text \<open>The body the four share, with the verb and the arguments as parameters.\<close>

definition mutate ::
  "('v, 'r) resolver \<Rightarrow> string \<Rightarrow> string \<Rightarrow> 'v jsval list \<Rightarrow> ('v, 'r) world
    \<Rightarrow> (error + 'v reply) \<times> ('v, 'r) world" where
  "mutate gen verb path args w =
    (let (result, w1) = generator gen verb path args w
     in if \<not> isError result then (Inr result, update_start gen path w1)
        else (Inr result, w1))"

subsection \<open>Sequences of operations\<close>

datatype 'v op =
    Subscribe client string
  | Unsubscribe client "string option"
  | Get string
  | Update string
  | Post string "'v jsval"
  | Put string "'v jsval"
  | Patch string "'v jsval"
  | Delete string
  | Resume nat

text \<open>
  One operation on the world: a call of a method by a caller that awaits it, or the
  resumption of a pending refresh. What it returns or throws is dropped; the state it
  leaves behind, also after an exception, is where the next operation starts.
\<close>

fun exec :: "('v, 'r) resolver \<Rightarrow> 'v op \<Rightarrow> ('v, 'r) world \<Rightarrow> ('v, 'r) world" where
  "exec gen (Subscribe c p) w = w\<lparr>mgr := subscribe c p (mgr w)\<rparr>"
| "exec gen (Unsubscribe c p) w = w\<lparr>mgr := snd (unsubscribe c p (mgr w))\<rparr>"
| "exec gen (Get p) w = snd (get gen p w)"
| "exec gen (Update p) w = snd (update gen p w)"
| "exec gen (Post p d) w = snd (post gen p d w)"
| "exec gen (Put p d) w = snd (put gen p d w)"
| "exec gen (Patch p d) w = snd (patch gen p d w)"
| "exec gen (Delete p) w = snd (delete gen p w)"
| "exec gen (Resume i) w = resume i w"

definition run :: "('v, 'r) resolver \<Rightarrow> 'v op list \<Rightarrow> ('v, 'r) world \<Rightarrow> ('v, 'r) world" where
  "run gen ops w = foldl (\<lambda>w' op. exec gen op w') w ops"

subsection \<open>Reading the trace\<close>

fun notified :: "'v event list \<Rightarrow> (client \<times> string \<times> 'v jsval) list" where
  "notified [] = []"
| "notified (Notify c p v m # es) = (c, p, v) # notified es"
| "notified (Call verb p args # es) = notified es"

fun calls :: "'v event list \<Rightarrow> (string \<times> string \<times> 'v jsval list) list" where
  "calls [] = []"
| "calls (Call verb p args # es) = (verb, p, args) # calls es"
| "calls (Notify c p v m # es) = calls es"

text \<open>The events an operation added: those of \<open>w'\<close> after the ones \<open>w\<close> had.\<close>

definition added :: "('v, 'r) world \<Rightarrow> ('v, 'r) world \<Rightarrow> 'v event list" where
  "added w w' = drop (length (trace w)) (trace w')"

text \<open>The edge between a client and a path, read in each index.\<close>

definition is_dependent :: "'v manager \<Rightarrow> client \<Rightarrow> string \<Rightarrow> bool" where
  "is_dependent m c p = (c \<in> set (members (dependents m) p))"

definition is_subscription :: "'v manager \<Rightarrow> client \<Rightarrow> string \<Rightarrow> bool" where
  "is_subscription m c p = (p \<in> set (members (subscriptions m) c))"

subsection \<open>Invariants of the graph\<close>

text \<open>
  What every state the program builds satisfies: no set lists a member twice, and the two
  indexes hold the same edges.
\<close>

definition graph_inv :: "'v manager \<Rightarrow> bool" where
  "graph_inv m \<longleftrightarrow>
    (\<forall>c. distinct (members (subscriptions m) c)) \<and>
    (\<forall>p. distinct (members (dependents m) p)) \<and>
    (\<forall>c p. is_dependent m c p = is_subscription m c p)"

text \<open>Two managers with the same keys in \<open>subscriptions\<close> and in \<open>dependents\<close>.\<close>

definition same_keys :: "'v manager \<Rightarrow> 'v manager \<Rightarrow> bool" where
  "same_keys m m' \<longleftrightarrow>
     (\<forall>c. (subscriptions m' c = None) = (subscriptions m c = None)) \<and>
     (\<forall>p. (dependents m' p = None) = (dependents m p = None))"

text \<open>Every key of the first manager is a key of the second.\<close>

definition keys_kept :: "'v manager \<Rightarrow> 'v manager \<Rightarrow> bool" where
  "keys_kept m m' \<longleftrightarrow>
     (\<forall>c. subscriptions m c \<noteq> None \<longrightarrow> subscriptions m' c \<noteq> None) \<and>
     (\<forall>p. dependents m p \<noteq> None \<longrightarrow> dependents m' p \<noteq> None)"

text \<open>
  The event is not a notification of a client that, when its callback ran, still had an
  edge to \<open>p\<close> in either index.
\<close>

fun edge_removed :: "string \<Rightarrow> 'v event \<Rightarrow> bool" where
  "edge_removed p (Notify c q v m) = (\<not> is_dependent m c p \<and> \<not> is_subscription m c p)"
| "edge_removed p (Call verb q args) = True"

text \<open>
  The event is not a notification made while the cache held anything but \<open>v\<close> for \<open>p\<close>.
\<close>

fun cache_written :: "string \<Rightarrow> 'v jsval \<Rightarrow> 'v event \<Rightarrow> bool" where
  "cache_written p v (Notify c q u m) = (cache m p = Some v)"
| "cache_written p v (Call verb q args) = True"

subsection \<open>Example inputs\<close>

text \<open>
  A generator that gives the same reply to every call, three replies, and the state after
  two clients subscribed to \<open>''/a''\<close>.
\<close>

definition always :: "'v reply \<Rightarrow> ('v, unit) resolver" where
  "always r verb path args b = (r, b)"

definition found :: "nat reply" where
  "found = \<lparr>status = 200, payload = Val 7, isError = False\<rparr>"

definition not_found :: "nat reply" where
  "not_found = \<lparr>status = 404, payload = Undefined, isError = True\<rparr>"

definition failed :: "nat reply" where
  "failed = \<lparr>status = 500, payload = Undefined, isError = True\<rparr>"


definition two_clients :: "(nat, unit) resolver \<Rightarrow> (nat, unit) world" where
  "two_clients gen = run gen [Subscribe 1 ''/a'', Subscribe 2 ''/a''] (new_world ())"

section \<open>Properties\<close>

subsection \<open>Sets and maps\<close>

lemma set_add_idem: "set_add x (set_add x xs) = set_add x xs"
  by (simp add: set_add_def)

lemma unsubscribe_if:
  "unsubscribe client path m =
    (if truthy path then unsubscribe_target client (the path) m
     else (case subscriptions m client of
             None \<Rightarrow> (Inl TypeError, m)
           | Some subs \<Rightarrow> unsubscribe_each client subs m))"
  by (cases path) (simp_all add: unsubscribe_def truthy_def)

lemma members_empty: "members Map.empty k = []"
  by (simp add: members_def)

lemma members_Some: "f k = Some xs \<Longrightarrow> members f k = xs"
  by (simp add: members_def)

lemma graph_inv_new: "graph_inv new_manager"
  by (simp add: graph_inv_def new_manager_def members_empty is_dependent_def is_subscription_def)

lemma graph_inv_cache: "graph_inv (m\<lparr>cache := k\<rparr>) = graph_inv m"
  by (simp add: graph_inv_def is_dependent_def is_subscription_def)

lemma subscribe_subscriptions:
  "members (subscriptions (subscribe c p m)) c' =
    (if c' = c then set_add p (members (subscriptions m) c) else members (subscriptions m) c')"
  by (simp add: subscribe_def Let_def members_def)

lemma subscribe_dependents:
  "members (dependents (subscribe c p m)) p' =
    (if p' = p then set_add c (members (dependents m) p) else members (dependents m) p')"
  by (simp add: subscribe_def Let_def members_def)

lemma set_set_add: "set (set_add x xs) = insert x (set xs)"
  by (auto simp: set_add_def)

lemma distinct_set_add: "distinct xs \<Longrightarrow> distinct (set_add x xs)"
  by (simp add: set_add_def)

lemma graph_inv_subscribe: 
  assumes "graph_inv m" shows "graph_inv (subscribe c p m)"
proof -
  from assms have d1: "\<And>c. distinct (members (subscriptions m) c)"
    and d2: "\<And>p. distinct (members (dependents m) p)"
    and sym: "\<And>c p. (c \<in> set (members (dependents m) p)) = (p \<in> set (members (subscriptions m) c))"
    by (simp_all add: graph_inv_def is_dependent_def is_subscription_def)
  show ?thesis
    unfolding graph_inv_def is_dependent_def is_subscription_def
    by (simp add: subscribe_subscriptions subscribe_dependents d1 d2 distinct_set_add set_set_add sym)
qed

subsection \<open>unsubscribe keeps the invariant\<close>

lemma inv_distinct_subs: "graph_inv m \<Longrightarrow> distinct (members (subscriptions m) c)"
  by (simp add: graph_inv_def)

lemma inv_distinct_deps: "graph_inv m \<Longrightarrow> distinct (members (dependents m) p)"
  by (simp add: graph_inv_def)

lemma inv_sym: "graph_inv m \<Longrightarrow>
  (c \<in> set (members (dependents m) p)) = (p \<in> set (members (subscriptions m) c))"
  by (simp add: graph_inv_def is_dependent_def is_subscription_def)

lemma graph_invI:
  assumes "\<And>c. distinct (members (subscriptions m) c)"
    and "\<And>p. distinct (members (dependents m) p)"
    and "\<And>c p. (c \<in> set (members (dependents m) p)) = (p \<in> set (members (subscriptions m) c))"
  shows "graph_inv m"
  using assms by (simp add: graph_inv_def is_dependent_def is_subscription_def)

lemma members_in_dom: "x \<in> set (members f k) \<Longrightarrow> f k \<noteq> None"
  by (cases "f k") (simp_all add: members_def)

lemma unsubscribe_target_cache: "cache (snd (unsubscribe_target c t m)) = cache m"
  by (simp add: unsubscribe_target_def Let_def split: option.splits)

lemma unsubscribe_target_subscriptions:
  "members (subscriptions (snd (unsubscribe_target c t m))) c' =
    (if c' = c then removeAll t (members (subscriptions m) c) else members (subscriptions m) c')"
  by (simp add: unsubscribe_target_def Let_def members_def set_delete_def split: option.splits)

lemma unsubscribe_target_dependents:
  assumes "graph_inv m"
  shows "members (dependents (snd (unsubscribe_target c t m))) p' =
    (if p' = t then removeAll c (members (dependents m) t) else members (dependents m) p')"
proof (cases "subscriptions m c")
  case None
  then have "t \<notin> set (members (subscriptions m) c)" by (simp add: members_def)
  then have "c \<notin> set (members (dependents m) t)" using inv_sym [OF assms] by simp
  then show ?thesis using None by (simp add: unsubscribe_target_def)
next
  case (Some subs)
  then show ?thesis
    by (simp add: unsubscribe_target_def Let_def members_def set_delete_def split: option.splits)
qed

lemma unsubscribe_target_dom_subscriptions:
  "(subscriptions (snd (unsubscribe_target c t m)) c' = None) = (subscriptions m c' = None)"
  by (simp add: unsubscribe_target_def Let_def split: option.splits)

lemma unsubscribe_target_dom_dependents:
  "(dependents (snd (unsubscribe_target c t m)) p' = None) = (dependents m p' = None)"
  by (simp add: unsubscribe_target_def Let_def split: option.splits)

lemma unsubscribe_target_ok:
  assumes "graph_inv m" and "t \<in> set (members (subscriptions m) c)"
  shows "fst (unsubscribe_target c t m) = Inr ()"
proof -
  from assms have "c \<in> set (members (dependents m) t)" by (simp add: inv_sym)
  then have "dependents m t \<noteq> None" by (rule members_in_dom)
  moreover from assms(2) have "subscriptions m c \<noteq> None" by (rule members_in_dom)
  ultimately show ?thesis
    by (auto simp: unsubscribe_target_def Let_def)
qed

lemma graph_inv_unsubscribe_target:
  assumes "graph_inv m"
  shows "graph_inv (snd (unsubscribe_target c t m))"
proof (rule graph_invI)
  fix c' show "distinct (members (subscriptions (snd (unsubscribe_target c t m))) c')"
    by (simp add: unsubscribe_target_subscriptions inv_distinct_subs [OF assms] distinct_removeAll)
next
  fix p' show "distinct (members (dependents (snd (unsubscribe_target c t m))) p')"
    by (simp add: unsubscribe_target_dependents [OF assms] inv_distinct_deps [OF assms]
        distinct_removeAll)
next
  fix c' p'
  show "(c' \<in> set (members (dependents (snd (unsubscribe_target c t m))) p')) =
        (p' \<in> set (members (subscriptions (snd (unsubscribe_target c t m))) c'))"
    using inv_sym [OF assms]
    by (auto simp: unsubscribe_target_subscriptions unsubscribe_target_dependents [OF assms])
qed

lemma unsubscribe_each_spec:
  assumes "graph_inv m" and "distinct ts" and "set ts \<subseteq> set (members (subscriptions m) c)"
  shows "fst (unsubscribe_each c ts m) = Inr () \<and>
         graph_inv (snd (unsubscribe_each c ts m)) \<and>
         cache (snd (unsubscribe_each c ts m)) = cache m \<and>
         (\<forall>c'. members (subscriptions (snd (unsubscribe_each c ts m))) c' =
            (if c' = c then filter (\<lambda>t. t \<notin> set ts) (members (subscriptions m) c)
             else members (subscriptions m) c')) \<and>
         (\<forall>p'. members (dependents (snd (unsubscribe_each c ts m))) p' =
            (if p' \<in> set ts then removeAll c (members (dependents m) p')
             else members (dependents m) p')) \<and>
         (\<forall>c'. (subscriptions (snd (unsubscribe_each c ts m)) c' = None) =
            (subscriptions m c' = None)) \<and>
         (\<forall>p'. (dependents (snd (unsubscribe_each c ts m)) p' = None) =
            (dependents m p' = None))"
  using assms
proof (induction ts arbitrary: m)
  case Nil
  then show ?case by simp
next
  case (Cons t ts)
  let ?m1 = "snd (unsubscribe_target c t m)"
  from Cons.prems have live: "t \<in> set (members (subscriptions m) c)" by simp
  have inv1: "graph_inv ?m1"
    by (rule graph_inv_unsubscribe_target [OF Cons.prems(1)])
  have subs1: "members (subscriptions ?m1) c = removeAll t (members (subscriptions m) c)"
    by (simp add: unsubscribe_target_subscriptions)
  from Cons.prems have d: "distinct ts" and nt: "t \<notin> set ts" by simp_all
  have sub1: "set ts \<subseteq> set (members (subscriptions ?m1) c)"
    using Cons.prems(3) nt by (auto simp: subs1)
  note IH = Cons.IH [OF inv1 d sub1]
  have unfold: "unsubscribe_each c (t # ts) m = unsubscribe_each c ts ?m1"
    using live unsubscribe_target_ok [OF Cons.prems(1) live]
    by (auto split: prod.splits sum.splits)
  have f: "filter (\<lambda>x. x \<notin> set ts) (removeAll t xs) = filter (\<lambda>x. x \<notin> set (t # ts)) xs" for xs :: "string list"
    by (induction xs) auto
  show ?case
    unfolding unfold
    using IH
    by (simp add: unsubscribe_target_cache unsubscribe_target_subscriptions
        unsubscribe_target_dependents [OF Cons.prems(1)] unsubscribe_target_dom_subscriptions
        unsubscribe_target_dom_dependents f)
qed

lemma same_keys_refl: "same_keys m m"
  by (simp add: same_keys_def)

lemma same_keys_trans: "same_keys m m' \<Longrightarrow> same_keys m' m'' \<Longrightarrow> same_keys m m''"
  by (simp add: same_keys_def)

lemma unsubscribe_target_keys: "same_keys m (snd (unsubscribe_target c t m))"
  by (simp add: same_keys_def unsubscribe_target_dom_subscriptions
      unsubscribe_target_dom_dependents)

lemma unsubscribe_each_keys: "same_keys m (snd (unsubscribe_each c ts m))"
proof (induction ts arbitrary: m)
  case Nil
  show ?case by (simp add: same_keys_refl)
next
  case (Cons t ts)
  show ?case
  proof (cases "t \<in> set (members (subscriptions m) c)")
    case False
    then show ?thesis using Cons.IH by simp
  next
    case True
    obtain r m1 where u: "unsubscribe_target c t m = (r, m1)" by (cases "unsubscribe_target c t m")
    have k1: "same_keys m m1" using unsubscribe_target_keys [of m c t] u by simp
    show ?thesis
    proof (cases r)
      case (Inl e)
      then show ?thesis using True u k1 by simp
    next
      case (Inr x)
      then show ?thesis using True u same_keys_trans [OF k1 Cons.IH [of m1]] by simp
    qed
  qed
qed

lemma unsubscribe_keys: "same_keys m (snd (unsubscribe c path m))"
  by (simp add: unsubscribe_if unsubscribe_target_keys unsubscribe_each_keys same_keys_refl
      split: option.splits)

lemma graph_inv_unsubscribe:
  assumes "graph_inv m"
  shows "graph_inv (snd (unsubscribe c path m))"
proof (cases "truthy path")
  case True
  then show ?thesis by (simp add: unsubscribe_if graph_inv_unsubscribe_target [OF assms])
next
  case False
  show ?thesis
  proof (cases "subscriptions m c")
    case None
    then show ?thesis using False assms by (simp add: unsubscribe_if)
  next
    case (Some subs)
    then have ms: "members (subscriptions m) c = subs" by (rule members_Some)
    have "distinct subs" using inv_distinct_subs [OF assms, of c] ms by simp
    moreover have "set subs \<subseteq> set (members (subscriptions m) c)" using ms by simp
    ultimately have "graph_inv (snd (unsubscribe_each c subs m))"
      using unsubscribe_each_spec [OF assms] by blast
    then show ?thesis using False Some by (simp add: unsubscribe_if)
  qed
qed

lemma unsubscribe_edge:
  assumes "graph_inv m" and "c \<in> set (members (dependents m) p)"
  shows "fst (unsubscribe c (Some p) m) = Inr () \<and>
         cache (snd (unsubscribe c (Some p) m)) = cache m \<and>
         members (dependents (snd (unsubscribe c (Some p) m))) p =
           removeAll c (members (dependents m) p) \<and>
         p \<notin> set (members (subscriptions (snd (unsubscribe c (Some p) m))) c)"
proof -
  from assms have live: "p \<in> set (members (subscriptions m) c)" by (simp add: inv_sym)
  show ?thesis
  proof (cases "p = []")
    case False
    then have u: "unsubscribe c (Some p) m = unsubscribe_target c p m"
      by (simp add: unsubscribe_if truthy_def)
    show ?thesis
      unfolding u
      by (simp add: unsubscribe_target_ok [OF assms(1) live] unsubscribe_target_cache
          unsubscribe_target_dependents [OF assms(1)] unsubscribe_target_subscriptions)
  next
    case True
    from live obtain subs where s: "subscriptions m c = Some subs"
      using members_in_dom [OF live] by auto
    then have ms: "members (subscriptions m) c = subs" by (rule members_Some)
    have u: "unsubscribe c (Some p) m = unsubscribe_each c subs m"
      using True s by (simp add: unsubscribe_if truthy_def)
    have d: "distinct subs" using inv_distinct_subs [OF assms(1), of c] ms by simp
    have sub: "set subs \<subseteq> set (members (subscriptions m) c)" using ms by simp
    show ?thesis
      unfolding u
      using unsubscribe_each_spec [OF assms(1) d sub] live ms by simp
  qed
qed

subsection \<open>The two fan-out loops\<close>

lemma notified_map_Notify: "notified (map (\<lambda>c. Notify c p v m) cs) = map (\<lambda>c. (c, p, v)) cs"
  by (induction cs) simp_all

lemma calls_map_Notify: "calls (map (\<lambda>c. Notify c p v m) cs) = []"
  by (induction cs) simp_all

lemma notify_each_eq:
  "notify_each p cs w = w\<lparr>trace := trace w @ map (\<lambda>c. Notify c p (cache_get (mgr w) p) (mgr w)) cs\<rparr>"
  by (induction cs arbitrary: w) (simp_all add: invoke_def)

lemma evict_each_keys: "same_keys (mgr w) (mgr (snd (evict_each p cs w)))"
proof (induction cs arbitrary: w)
  case Nil
  show ?case by (simp add: same_keys_refl)
next
  case (Cons c cs)
  show ?case
  proof (cases "c \<in> set (members (dependents (mgr w)) p)")
    case False
    then show ?thesis using Cons.IH by simp
  next
    case True
    obtain r m1 where u: "unsubscribe c (Some p) (mgr w) = (r, m1)"
      by (cases "unsubscribe c (Some p) (mgr w)")
    have k1: "same_keys (mgr w) m1" using unsubscribe_keys [of "mgr w" c "Some p"] u by simp
    show ?thesis
    proof (cases r)
      case (Inl e)
      then show ?thesis using True u k1 by simp
    next
      case (Inr x)
      have "same_keys m1 (mgr (snd (evict_each p cs (invoke c p Undefined (w\<lparr>mgr := m1\<rparr>)))))"
        using Cons.IH [of "invoke c p Undefined (w\<lparr>mgr := m1\<rparr>)"] by (simp add: invoke_def)
      then show ?thesis using True u Inr same_keys_trans [OF k1] by simp
    qed
  qed
qed

lemma evict_each_spec:
  assumes "graph_inv (mgr w)" and "distinct cs"
    and "set cs \<subseteq> set (members (dependents (mgr w)) p)"
  shows "\<exists>es. fst (evict_each p cs w) = Inr () \<and>
          trace (snd (evict_each p cs w)) = trace w @ es \<and>
          notified es = map (\<lambda>c. (c, p, Undefined)) cs \<and>
          calls es = [] \<and>
          list_all (edge_removed p) es \<and>
          backend (snd (evict_each p cs w)) = backend w \<and>
          cache (mgr (snd (evict_each p cs w))) = cache (mgr w) \<and>
          graph_inv (mgr (snd (evict_each p cs w))) \<and>
          members (dependents (mgr (snd (evict_each p cs w)))) p =
            filter (\<lambda>c. c \<notin> set cs) (members (dependents (mgr w)) p)"
  using assms
proof (induction cs arbitrary: w)
  case Nil
  then show ?case by simp
next
  case (Cons c cs)
  let ?m1 = "snd (unsubscribe c (Some p) (mgr w))"
  let ?w1 = "invoke c p Undefined (w\<lparr>mgr := ?m1\<rparr>)"
  from Cons.prems have live: "c \<in> set (members (dependents (mgr w)) p)" by simp
  note edge = unsubscribe_edge [OF Cons.prems(1) live]
  have inv1: "graph_inv ?m1" by (rule graph_inv_unsubscribe [OF Cons.prems(1)])
  have mgr1: "mgr ?w1 = ?m1" by (simp add: invoke_def)
  from Cons.prems have d: "distinct cs" and nc: "c \<notin> set cs" by simp_all
  have sub1: "set cs \<subseteq> set (members (dependents (mgr ?w1)) p)"
    using Cons.prems(3) nc edge by (auto simp: mgr1)
  have inv1': "graph_inv (mgr ?w1)" using inv1 by (simp add: mgr1)
  from Cons.IH [OF inv1' d sub1] obtain es where
    IH: "fst (evict_each p cs ?w1) = Inr ()"
      "trace (snd (evict_each p cs ?w1)) = trace ?w1 @ es"
      "notified es = map (\<lambda>c. (c, p, Undefined)) cs"
      "calls es = []"
      "list_all (edge_removed p) es"
      "backend (snd (evict_each p cs ?w1)) = backend ?w1"
      "cache (mgr (snd (evict_each p cs ?w1))) = cache (mgr ?w1)"
      "graph_inv (mgr (snd (evict_each p cs ?w1)))"
      "members (dependents (mgr (snd (evict_each p cs ?w1)))) p =
         filter (\<lambda>c. c \<notin> set cs) (members (dependents (mgr ?w1)) p)"
    by blast
  have unfold: "evict_each p (c # cs) w = evict_each p cs ?w1"
    using live edge by (auto split: prod.splits sum.splits)
  have gone: "edge_removed p (Notify c p Undefined ?m1)"
    using edge inv_sym [OF inv1, of c p] by (simp add: is_dependent_def is_subscription_def)
  have f: "filter (\<lambda>x. x \<notin> set cs) (removeAll c xs) = filter (\<lambda>x. x \<notin> set (c # cs)) xs"
    for xs :: "client list"
    by (induction xs) auto
  let ?es = "Notify c p Undefined ?m1 # es"
  have "fst (evict_each p (c # cs) w) = Inr ()" using IH(1) by (simp only: unfold)
  moreover have "trace (snd (evict_each p (c # cs) w)) = trace w @ ?es"
    using IH(2) by (simp only: unfold) (simp add: invoke_def)
  moreover have "notified ?es = map (\<lambda>c. (c, p, Undefined)) (c # cs)" using IH(3) by simp
  moreover have "calls ?es = []" using IH(4) by simp
  moreover have "list_all (edge_removed p) ?es" using IH(5) gone by simp
  moreover have "backend (snd (evict_each p (c # cs) w)) = backend w"
    using IH(6) by (simp only: unfold) (simp add: invoke_def)
  moreover have "cache (mgr (snd (evict_each p (c # cs) w))) = cache (mgr w)"
    using IH(7) edge by (simp only: unfold mgr1)
  moreover have "graph_inv (mgr (snd (evict_each p (c # cs) w)))"
    using IH(8) by (simp only: unfold)
  moreover have "members (dependents (mgr (snd (evict_each p (c # cs) w)))) p =
      filter (\<lambda>x. x \<notin> set (c # cs)) (members (dependents (mgr w)) p)"
    using IH(9) edge by (simp only: unfold mgr1 f [symmetric])
  ultimately show ?case by blast
qed

subsection \<open>The three branches of update\<close>

lemma generator_eq:
  "gen verb p args (backend w) = (r, b) \<Longrightarrow>
   generator gen verb p args w = (r, w\<lparr>backend := b, trace := trace w @ [Call verb p args]\<rparr>)"
  by (simp add: generator_def)

lemma update_split:
  "gen ''get'' p [] (backend w) = (r, b) \<Longrightarrow>
   update gen p w = update_resume p r (w\<lparr>backend := b, trace := trace w @ [Call ''get'' p []]\<rparr>)"
  by (simp add: update_def update_resume_def generator_eq Let_def)

lemma update_start_eq:
  "gen ''get'' p [] (backend w) = (r, b) \<Longrightarrow>
   update_start gen p w =
     w\<lparr>backend := b, trace := trace w @ [Call ''get'' p []], pending := pending w @ [(p, r)]\<rparr>"
  by (simp add: update_start_def generator_eq)

lemma update_resume_success:
  assumes "\<not> isError r"
  shows "update_resume p r w =
    (Inr r, w\<lparr>mgr := (mgr w)\<lparr>cache := (cache (mgr w))(p \<mapsto> payload r)\<rparr>,
              trace := trace w @
                map (\<lambda>c. Notify c p (payload r) ((mgr w)\<lparr>cache := (cache (mgr w))(p \<mapsto> payload r)\<rparr>))
                  (members (dependents (mgr w)) p)\<rparr>)"
  using assms
  by (simp add: update_resume_def Let_def notify_each_eq cache_get_def members_def
      split: option.splits)

lemma update_resume_other_error:
  assumes "isError r" and "status r \<noteq> 404"
  shows "update_resume p r w = (Inr r, w)"
  using assms by (simp add: update_resume_def)

lemma update_resume_evict:
  assumes "isError r" and "status r = 404"
  shows "snd (update_resume p r w) =
    snd (evict_each p (members (dependents (mgr w)) p)
      (w\<lparr>mgr := (mgr w)\<lparr>cache := (cache (mgr w))(p := None)\<rparr>\<rparr>))"
  using assms
  by (auto simp: update_resume_def members_def split: option.splits prod.splits sum.splits)

lemma update_resume_not_found:
  assumes "isError r" and "status r = 404" and "graph_inv (mgr w)"
  shows "\<exists>es. fst (update_resume p r w) = Inr r \<and>
          trace (snd (update_resume p r w)) = trace w @ es \<and>
          notified es = map (\<lambda>c. (c, p, Undefined)) (members (dependents (mgr w)) p) \<and>
          calls es = [] \<and>
          list_all (edge_removed p) es \<and>
          backend (snd (update_resume p r w)) = backend w \<and>
          cache (mgr (snd (update_resume p r w))) = (cache (mgr w))(p := None) \<and>
          graph_inv (mgr (snd (update_resume p r w))) \<and>
          members (dependents (mgr (snd (update_resume p r w)))) p = []"
proof -
  let ?w2 = "w\<lparr>mgr := (mgr w)\<lparr>cache := (cache (mgr w))(p := None)\<rparr>\<rparr>"
  let ?ds = "members (dependents (mgr w)) p"
  have inv2: "graph_inv (mgr ?w2)" using assms(3) by (simp add: graph_inv_cache)
  have d: "distinct ?ds" by (rule inv_distinct_deps [OF assms(3)])
  have sub: "set ?ds \<subseteq> set (members (dependents (mgr ?w2)) p)" by simp
  from evict_each_spec [OF inv2 d sub] obtain es where
    E: "fst (evict_each p ?ds ?w2) = Inr ()"
      "trace (snd (evict_each p ?ds ?w2)) = trace ?w2 @ es"
      "notified es = map (\<lambda>c. (c, p, Undefined)) ?ds"
      "calls es = []"
      "list_all (edge_removed p) es"
      "backend (snd (evict_each p ?ds ?w2)) = backend ?w2"
      "cache (mgr (snd (evict_each p ?ds ?w2))) = cache (mgr ?w2)"
      "graph_inv (mgr (snd (evict_each p ?ds ?w2)))"
      "members (dependents (mgr (snd (evict_each p ?ds ?w2)))) p =
         filter (\<lambda>c. c \<notin> set ?ds) (members (dependents (mgr ?w2)) p)"
    by blast
  have u: "update_resume p r w = (Inr r, snd (evict_each p ?ds ?w2))"
  proof (cases "dependents (mgr w) p")
    case None
    then show ?thesis using assms(1,2)
      by (simp add: update_resume_def members_def)
  next
    case (Some deps)
    then have "?ds = deps" by (rule members_Some)
    then show ?thesis using assms(1,2) Some E(1)
      by (auto simp: update_resume_def split: prod.splits sum.splits)
  qed
  show ?thesis
    unfolding u using E by simp
qed

lemma evict_each_calls:
  "\<exists>es. trace (snd (evict_each p cs w)) = trace w @ es \<and> calls es = []"
proof (induction cs arbitrary: w)
  case Nil
  show ?case by simp
next
  case (Cons c cs)
  show ?case
  proof (cases "c \<in> set (members (dependents (mgr w)) p)")
    case False
    then show ?thesis using Cons.IH by simp
  next
    case True
    obtain r m1 where u: "unsubscribe c (Some p) (mgr w) = (r, m1)"
      by (cases "unsubscribe c (Some p) (mgr w)")
    show ?thesis
    proof (cases r)
      case (Inl e)
      then show ?thesis using True u by simp
    next
      case (Inr x)
      from Cons.IH [of "invoke c p Undefined (w\<lparr>mgr := m1\<rparr>)"] obtain es where
        "trace (snd (evict_each p cs (invoke c p Undefined (w\<lparr>mgr := m1\<rparr>)))) =
           trace w @ Notify c p Undefined m1 # es" and "calls es = []"
        by (auto simp: invoke_def)
      then have "trace (snd (evict_each p (c # cs) w)) = trace w @ Notify c p Undefined m1 # es \<and>
          calls (Notify c p Undefined m1 # es) = []"
        using True u Inr by simp
      then show ?thesis by blast
    qed
  qed
qed

lemma evict_each_frame:
  "backend (snd (evict_each p cs w)) = backend w \<and>
   pending (snd (evict_each p cs w)) = pending w"
proof (induction cs arbitrary: w)
  case Nil
  show ?case by simp
next
  case (Cons c cs)
  show ?case
  proof (cases "c \<in> set (members (dependents (mgr w)) p)")
    case False
    then show ?thesis using Cons.IH by simp
  next
    case True
    obtain r m1 where u: "unsubscribe c (Some p) (mgr w) = (r, m1)"
      by (cases "unsubscribe c (Some p) (mgr w)")
    show ?thesis
    proof (cases r)
      case (Inl e)
      then show ?thesis using True u by simp
    next
      case (Inr x)
      then show ?thesis
        using True u Cons.IH [of "invoke c p Undefined (w\<lparr>mgr := m1\<rparr>)"]
        by (simp add: invoke_def)
    qed
  qed
qed

text \<open>What the rest of \<open>update\<close> leaves alone, whatever the reply and the state.\<close>

lemma update_resume_frame:
  "\<exists>es. trace (snd (update_resume p r w)) = trace w @ es \<and> calls es = [] \<and>
     backend (snd (update_resume p r w)) = backend w \<and>
     pending (snd (update_resume p r w)) = pending w \<and>
     same_keys (mgr w) (mgr (snd (update_resume p r w)))"
proof (cases "isError r")
  case False
  show ?thesis
    by (simp add: update_resume_success [OF False] calls_map_Notify same_keys_def)
next
  case True
  show ?thesis
  proof (cases "status r = 404")
    case False
    show ?thesis by (simp add: update_resume_other_error [OF True False] same_keys_refl)
  next
    case nf: True
    let ?w2 = "w\<lparr>mgr := (mgr w)\<lparr>cache := (cache (mgr w))(p := None)\<rparr>\<rparr>"
    let ?ds = "members (dependents (mgr w)) p"
    have k2: "same_keys (mgr w) (mgr ?w2)" by (simp add: same_keys_def)
    from evict_each_calls [of p ?ds ?w2] obtain es where
      e: "trace (snd (evict_each p ?ds ?w2)) = trace ?w2 @ es" "calls es = []" by blast
    have k: "same_keys (mgr w) (mgr (snd (evict_each p ?ds ?w2)))"
      using same_keys_trans [OF k2 evict_each_keys [of ?w2 p ?ds]] by simp
    show ?thesis
      unfolding update_resume_evict [OF True nf]
      using e k evict_each_frame [of p ?ds ?w2] by simp
  qed
qed

lemma graph_inv_update_resume:
  assumes "graph_inv (mgr w)"
  shows "graph_inv (mgr (snd (update_resume p r w)))"
proof (cases "isError r")
  case False
  show ?thesis using assms
    by (simp add: update_resume_success [OF False] graph_inv_cache)
next
  case True
  show ?thesis
  proof (cases "status r = 404")
    case False
    show ?thesis using assms by (simp add: update_resume_other_error [OF True False])
  next
    case nf: True
    show ?thesis using update_resume_not_found [OF True nf assms] by blast
  qed
qed

text \<open>The same for \<open>update\<close> awaited by its caller: the generator call, then the rest.\<close>

lemma update_success:
  assumes "gen ''get'' p [] (backend w) = (r, b)" and "\<not> isError r"
  shows "update gen p w =
    (Inr r, w\<lparr>mgr := (mgr w)\<lparr>cache := (cache (mgr w))(p \<mapsto> payload r)\<rparr>,
              backend := b,
              trace := trace w @ Call ''get'' p [] #
                map (\<lambda>c. Notify c p (payload r) ((mgr w)\<lparr>cache := (cache (mgr w))(p \<mapsto> payload r)\<rparr>))
                  (members (dependents (mgr w)) p)\<rparr>)"
  by (simp add: update_split [where gen=gen and w=w, OF assms(1)]
      update_resume_success [OF assms(2)])

lemma update_other_error:
  assumes "gen ''get'' p [] (backend w) = (r, b)" and "isError r" and "status r \<noteq> 404"
  shows "update gen p w = (Inr r, w\<lparr>backend := b, trace := trace w @ [Call ''get'' p []]\<rparr>)"
  by (simp add: update_split [where gen=gen and w=w, OF assms(1)]
      update_resume_other_error [OF assms(2,3)])

lemma update_not_found:
  assumes "gen ''get'' p [] (backend w) = (r, b)" and "isError r" and "status r = 404"
    and "graph_inv (mgr w)"
  shows "\<exists>es. fst (update gen p w) = Inr r \<and>
          trace (snd (update gen p w)) = trace w @ Call ''get'' p [] # es \<and>
          notified es = map (\<lambda>c. (c, p, Undefined)) (members (dependents (mgr w)) p) \<and>
          calls es = [] \<and>
          list_all (edge_removed p) es \<and>
          backend (snd (update gen p w)) = b \<and>
          cache (mgr (snd (update gen p w))) = (cache (mgr w))(p := None) \<and>
          graph_inv (mgr (snd (update gen p w))) \<and>
          members (dependents (mgr (snd (update gen p w)))) p = []"
proof -
  let ?w1 = "w\<lparr>backend := b, trace := trace w @ [Call ''get'' p []]\<rparr>"
  have inv1: "graph_inv (mgr ?w1)" using assms(4) by simp
  show ?thesis
    unfolding update_split [where gen=gen and w=w, OF assms(1)]
    using update_resume_not_found [OF assms(2,3) inv1, of p] by simp
qed

lemma update_calls: "calls (added w (snd (update gen p w))) = [(''get'', p, [])]"
proof -
  obtain r b where g: "gen ''get'' p [] (backend w) = (r, b)"
    by (cases "gen ''get'' p [] (backend w)")
  let ?w1 = "w\<lparr>backend := b, trace := trace w @ [Call ''get'' p []]\<rparr>"
  from update_resume_frame [of p r ?w1] obtain es where
    e: "trace (snd (update_resume p r ?w1)) = trace ?w1 @ es" "calls es = []" by blast
  show ?thesis
    unfolding update_split [where gen=gen and w=w, OF g]
    using e by (simp add: added_def)
qed

lemma update_keys: "same_keys (mgr w) (mgr (snd (update gen p w)))"
proof -
  obtain r b where g: "gen ''get'' p [] (backend w) = (r, b)"
    by (cases "gen ''get'' p [] (backend w)")
  show ?thesis
    unfolding update_split [where gen=gen and w=w, OF g]
    using update_resume_frame [of p r "w\<lparr>backend := b, trace := trace w @ [Call ''get'' p []]\<rparr>"]
    by auto
qed

lemma graph_inv_update:
  assumes "graph_inv (mgr w)"
  shows "graph_inv (mgr (snd (update gen p w)))"
proof -
  obtain r b where g: "gen ''get'' p [] (backend w) = (r, b)"
    by (cases "gen ''get'' p [] (backend w)")
  let ?w1 = "w\<lparr>backend := b, trace := trace w @ [Call ''get'' p []]\<rparr>"
  have "graph_inv (mgr ?w1)" using assms by simp
  then have "graph_inv (mgr (snd (update_resume p r ?w1)))" by (rule graph_inv_update_resume)
  then show ?thesis by (simp only: update_split [where gen=gen and w=w, OF g])
qed

lemma graph_inv_get: "graph_inv (mgr w) \<Longrightarrow> graph_inv (mgr (snd (get gen p w)))"
  by (simp add: get_def graph_inv_update)

lemma get_keys: "same_keys (mgr w) (mgr (snd (get gen p w)))"
  by (simp add: get_def update_keys same_keys_refl)

subsection \<open>The mutating verbs and the pending refresh\<close>

lemma post_mutate: "post gen p d = mutate gen ''post'' p [d]"
  by (rule ext) (simp add: post_def mutate_def)

lemma put_mutate: "put gen p d = mutate gen ''put'' p [d]"
  by (rule ext) (simp add: put_def mutate_def)

lemma patch_mutate: "patch gen p d = mutate gen ''patch'' p [d]"
  by (rule ext) (simp add: patch_def mutate_def)

lemma delete_mutate: "delete gen p = mutate gen ''delete'' p [Null]"
  by (rule ext) (simp add: delete_def mutate_def)

lemma mutate_eq:
  assumes "gen verb p args (backend w) = (r, b)"
  shows "mutate gen verb p args w =
    (Inr r, if \<not> isError r
            then update_start gen p (w\<lparr>backend := b, trace := trace w @ [Call verb p args]\<rparr>)
            else w\<lparr>backend := b, trace := trace w @ [Call verb p args]\<rparr>)"
  by (simp add: mutate_def generator_eq [where gen=gen and w=w, OF assms])

lemma update_start_mgr: "mgr (update_start gen p w) = mgr w"
proof -
  obtain r b where g: "gen ''get'' p [] (backend w) = (r, b)"
    by (cases "gen ''get'' p [] (backend w)")
  show ?thesis by (simp add: update_start_eq [where gen=gen and w=w, OF g])
qed

lemma mutate_mgr: "mgr (snd (mutate gen verb p args w)) = mgr w"
proof -
  obtain r b where g: "gen verb p args (backend w) = (r, b)"
    by (cases "gen verb p args (backend w)")
  show ?thesis by (simp add: mutate_eq [where gen=gen and w=w, OF g] update_start_mgr)
qed

lemma resume_eq:
  assumes "i < length (pending w)" and "pending w ! i = (p, r)"
  shows "resume i w =
    snd (update_resume p r (w\<lparr>pending := take i (pending w) @ drop (Suc i) (pending w)\<rparr>))"
  using assms by (simp add: resume_def)

lemma graph_inv_resume:
  assumes "graph_inv (mgr w)"
  shows "graph_inv (mgr (resume i w))"
proof (cases "i < length (pending w)")
  case False
  then show ?thesis using assms by (simp add: resume_def)
next
  case True
  obtain p r where e: "pending w ! i = (p, r)" by (cases "pending w ! i")
  let ?w0 = "w\<lparr>pending := take i (pending w) @ drop (Suc i) (pending w)\<rparr>"
  have "graph_inv (mgr ?w0)" using assms by simp
  then have "graph_inv (mgr (snd (update_resume p r ?w0)))" by (rule graph_inv_update_resume)
  then show ?thesis by (simp only: resume_eq [OF True e])
qed

lemma resume_keys: "same_keys (mgr w) (mgr (resume i w))"
proof (cases "i < length (pending w)")
  case False
  then show ?thesis by (simp add: resume_def same_keys_refl)
next
  case True
  obtain p r where e: "pending w ! i = (p, r)" by (cases "pending w ! i")
  let ?w0 = "w\<lparr>pending := take i (pending w) @ drop (Suc i) (pending w)\<rparr>"
  have "same_keys (mgr ?w0) (mgr (snd (update_resume p r ?w0)))"
    using update_resume_frame [of p r ?w0] by blast
  then show ?thesis by (simp add: resume_eq [OF True e])
qed

subsection \<open>Every reachable state satisfies the invariant\<close>

lemma graph_inv_exec: "graph_inv (mgr w) \<Longrightarrow> graph_inv (mgr (exec gen op w))"
  by (cases op)
    (simp_all add: graph_inv_subscribe graph_inv_unsubscribe graph_inv_get graph_inv_update
      mutate_mgr graph_inv_resume post_mutate put_mutate patch_mutate delete_mutate)

lemma graph_inv_run: "graph_inv (mgr w) \<Longrightarrow> graph_inv (mgr (run gen ops w))"
  unfolding run_def by (induction ops arbitrary: w) (simp_all add: graph_inv_exec)

lemma graph_inv_reachable: "graph_inv (mgr (run gen ops (new_world b)))"
  by (rule graph_inv_run) (simp add: new_world_def graph_inv_new)

lemma same_keys_kept: "same_keys m m' \<Longrightarrow> keys_kept m m'"
  by (simp add: same_keys_def keys_kept_def)

lemma subscribe_keys_kept: "keys_kept m (subscribe c p m)"
  by (simp add: keys_kept_def subscribe_def Let_def)

lemma subscribe_has_keys:
  "subscriptions (subscribe c p m) c \<noteq> None \<and> dependents (subscribe c p m) p \<noteq> None"
  by (simp add: subscribe_def Let_def)

lemma exec_keys_kept: "keys_kept (mgr w) (mgr (exec gen op w))"
  by (cases op)
    (simp_all add: subscribe_keys_kept same_keys_kept unsubscribe_keys get_keys update_keys
      resume_keys mutate_mgr same_keys_refl post_mutate put_mutate patch_mutate delete_mutate)

lemma run_keys_kept: "keys_kept (mgr w) (mgr (run gen ops w))"
  unfolding run_def
proof (induction ops arbitrary: w)
  case Nil
  show ?case by (simp add: keys_kept_def)
next
  case (Cons op ops)
  have "keys_kept (mgr w) (mgr (exec gen op w))" by (rule exec_keys_kept)
  moreover have "keys_kept (mgr (exec gen op w)) (mgr (foldl (\<lambda>w' op. exec gen op w') (exec gen op w) ops))"
    by (rule Cons.IH)
  ultimately show ?case by (simp add: keys_kept_def)
qed

lemma count_list_map_client:
  "distinct cs \<Longrightarrow>
   count_list (map (\<lambda>c. (c, p, v)) cs) (c, p, v) = (if c \<in> set cs then 1 else 0)"
  by (induction cs) auto

lemma two_clients_members:
  "members (dependents (mgr (two_clients gen))) ''/a'' = [1, 2] \<and>
   members (dependents (mgr (two_clients gen))) ''/b'' = [] \<and>
   backend (two_clients gen) = () \<and> pending (two_clients gen) = []"
  by (simp add: two_clients_def run_def new_world_def new_manager_def subscribe_def Let_def
      members_def set_add_def)

subsection \<open>The claims\<close>

text \<open>
  C1: in every state reached from the empty one, when \<open>update(p)\<close> gets an error reply
  with status 404 it returns that reply, and afterwards the cache has no entry for \<open>p\<close>,
  no client is a dependent of \<open>p\<close> and \<open>p\<close> is a subscription of no client. Every
  notification of the call was made with the client's edge to \<open>p\<close> already removed in both
  indexes (\<open>edge_removed\<close> reads the manager recorded when the callback ran). The
  notifications are \<open>(p, undefined)\<close> to the dependents of \<open>p\<close> at the start, in their
  order, so each of them was notified exactly once.
\<close>

theorem update_404_evicts:
  assumes "w = run gen ops (new_world b0)"
    and "gen ''get'' p [] (backend w) = (r, b)" and "isError r" and "status r = 404"
  shows "fst (update gen p w) = Inr r \<and>
         cache (mgr (snd (update gen p w))) p = None \<and>
         (\<forall>c. \<not> is_dependent (mgr (snd (update gen p w))) c p \<and>
              \<not> is_subscription (mgr (snd (update gen p w))) c p) \<and>
         list_all (edge_removed p) (added w (snd (update gen p w))) \<and>
         notified (added w (snd (update gen p w))) =
           map (\<lambda>c. (c, p, Undefined)) (members (dependents (mgr w)) p) \<and>
         (\<forall>c. is_dependent (mgr w) c p \<longrightarrow>
              count_list (notified (added w (snd (update gen p w)))) (c, p, Undefined) = 1)"
proof -
  have inv: "graph_inv (mgr w)" unfolding assms(1) by (rule graph_inv_reachable)
  let ?w' = "snd (update gen p w)"
  from update_not_found [where gen=gen and w=w, OF assms(2-4) inv] obtain es where
    E: "fst (update gen p w) = Inr r"
      "trace ?w' = trace w @ Call ''get'' p [] # es"
      "notified es = map (\<lambda>c. (c, p, Undefined)) (members (dependents (mgr w)) p)"
      "calls es = []"
      "list_all (edge_removed p) es"
      "cache (mgr ?w') = (cache (mgr w))(p := None)"
      "graph_inv (mgr ?w')"
      "members (dependents (mgr ?w')) p = []"
    by blast
  have a: "added w ?w' = Call ''get'' p [] # es" using E(2) by (simp add: added_def)
  have gone: "\<not> is_dependent (mgr ?w') c p \<and> \<not> is_subscription (mgr ?w') c p" for c
    using E(8) inv_sym [OF E(7), of c p] by (simp add: is_dependent_def is_subscription_def)
  have once: "count_list (notified (added w ?w')) (c, p, Undefined) = 1"
    if "is_dependent (mgr w) c p" for c
    using that inv_distinct_deps [OF inv, of p]
    by (simp add: a E(3) count_list_map_client is_dependent_def)
  show ?thesis
    using E(1) E(6) gone E(5) E(3) once by (simp add: a)
qed

theorem update_404_evicts_witness:
  "two_clients (always not_found) =
     run (always not_found) [Subscribe 1 ''/a'', Subscribe 2 ''/a''] (new_world ()) \<and>
   always not_found ''get'' ''/a'' [] (backend (two_clients (always not_found))) = (not_found, ()) \<and>
   isError not_found \<and> status not_found = 404 \<and>
   is_dependent (mgr (two_clients (always not_found))) 1 ''/a'' \<and>
   is_dependent (mgr (two_clients (always not_found))) 2 ''/a'' \<and>
   fst (update (always not_found) ''/a'' (two_clients (always not_found))) = Inr not_found \<and>
   \<not> is_subscription
       (mgr (snd (update (always not_found) ''/a'' (two_clients (always not_found))))) 1 ''/a'' \<and>
   \<not> is_dependent
       (mgr (snd (update (always not_found) ''/a'' (two_clients (always not_found))))) 2 ''/a'' \<and>
   notified (added (two_clients (always not_found))
       (snd (update (always not_found) ''/a'' (two_clients (always not_found))))) =
     [(1, ''/a'', Undefined), (2, ''/a'', Undefined)] \<and>
   count_list (notified (added (two_clients (always not_found))
       (snd (update (always not_found) ''/a'' (two_clients (always not_found))))))
     (2, ''/a'', Undefined) = 1"
proof -
  let ?w = "two_clients (always not_found)"
  have h1: "?w = run (always not_found) [Subscribe 1 ''/a'', Subscribe 2 ''/a''] (new_world ())"
    by (simp add: two_clients_def)
  have h2: "always not_found ''get'' ''/a'' [] (backend ?w) = (not_found, ())"
    by (simp add: always_def)
  have h3: "isError not_found" and h4: "status not_found = 404"
    by (simp_all add: not_found_def)
  have m: "members (dependents (mgr ?w)) ''/a'' = [1, 2]"
    by (simp add: two_clients_members)
  note t = update_404_evicts [OF h1 h2 h3 h4]
  have d: "is_dependent (mgr ?w) 1 ''/a''" "is_dependent (mgr ?w) 2 ''/a''"
    by (simp_all add: is_dependent_def m)
  from t have c1: "fst (update (always not_found) ''/a'' ?w) = Inr not_found" by blast
  from t have c2: "\<not> is_subscription (mgr (snd (update (always not_found) ''/a'' ?w))) 1 ''/a''"
    by blast
  from t have c3: "\<not> is_dependent (mgr (snd (update (always not_found) ''/a'' ?w))) 2 ''/a''"
    by blast
  from t have "notified (added ?w (snd (update (always not_found) ''/a'' ?w))) =
      map (\<lambda>c. (c, ''/a'', Undefined)) (members (dependents (mgr ?w)) ''/a'')" by blast
  then have c4: "notified (added ?w (snd (update (always not_found) ''/a'' ?w))) =
      [(1, ''/a'', Undefined), (2, ''/a'', Undefined)]" by (simp add: m)
  from t d(2) have c5: "count_list (notified (added ?w (snd (update (always not_found) ''/a'' ?w))))
      (2, ''/a'', Undefined) = 1" by blast
  show ?thesis
    by (intro conjI h1 h2 h3 h4 d c1 c2 c3 c4 c5)
qed

text \<open>
  C2 (the code does not do this): \<open>unsubscribe\<close> is not total. For a client that never
  subscribed, \<open>this.subscriptions.get(client)\<close> is \<open>undefined\<close> and both forms end in a
  \<open>TypeError\<close>; so does unsubscribing a client that has subscriptions from a path nobody
  ever subscribed to, where \<open>this.dependents.get(target)\<close> is \<open>undefined\<close>. With the empty
  string as path the whole set is removed: the edge to \<open>''/a''\<close> goes although the edge
  asked for does not exist.
\<close>

theorem unsubscribe_throws:
  "unsubscribe c path (new_manager :: 'v manager) = (Inl TypeError, new_manager) \<and>
   unsubscribe 1 (Some ''/b'') (subscribe 1 ''/a'' (new_manager :: 'v manager)) =
     (Inl TypeError, subscribe 1 ''/a'' new_manager) \<and>
   is_subscription (subscribe 1 ''/a'' (new_manager :: 'v manager)) 1 ''/a'' \<and>
   \<not> is_subscription (subscribe 1 ''/a'' (new_manager :: 'v manager)) 1 '''' \<and>
   \<not> is_subscription
       (snd (unsubscribe 1 (Some '''') (subscribe 1 ''/a'' (new_manager :: 'v manager)))) 1 ''/a''"
proof -
  have a: "unsubscribe c path (new_manager :: 'v manager) = (Inl TypeError, new_manager)"
    by (simp add: unsubscribe_if unsubscribe_target_def new_manager_def)
  have s: "subscribe 1 ''/a'' (new_manager :: 'v manager) =
      \<lparr>cache = Map.empty, dependents = [''/a'' \<mapsto> [1]], subscriptions = [1 \<mapsto> [''/a'']]\<rparr>"
    by (simp add: subscribe_def new_manager_def Let_def members_def set_add_def)
  have b: "unsubscribe 1 (Some ''/b'') (subscribe 1 ''/a'' (new_manager :: 'v manager)) =
      (Inl TypeError, subscribe 1 ''/a'' new_manager)"
    unfolding s
    by (simp add: unsubscribe_if truthy_def unsubscribe_target_def Let_def set_delete_def)
  have c: "\<not> is_subscription
       (snd (unsubscribe 1 (Some '''') (subscribe 1 ''/a'' (new_manager :: 'v manager)))) 1 ''/a''"
    unfolding s
    by (simp add: unsubscribe_if truthy_def unsubscribe_target_def Let_def set_delete_def
        members_def is_subscription_def)
  have d: "is_subscription (subscribe 1 ''/a'' (new_manager :: 'v manager)) 1 ''/a''"
    unfolding s by (simp add: is_subscription_def members_def)
  have e: "\<not> is_subscription (subscribe 1 ''/a'' (new_manager :: 'v manager)) 1 ''''"
    unfolding s by (simp add: is_subscription_def members_def)
  show ?thesis
    by (intro conjI a b c d e)
qed

text \<open>
  C3: in every state reached from the empty one by any sequence of \<open>subscribe\<close>,
  \<open>unsubscribe\<close>, \<open>get\<close>, \<open>update\<close>, \<open>post\<close>, \<open>put\<close>, \<open>patch\<close> and \<open>delete\<close>, whatever the
  generator replies and whether or not an operation threw, a client is in the dependents
  of a path exactly when the path is in the subscriptions of the client.
\<close>

theorem graph_symmetric:
  "is_dependent (mgr (run gen ops (new_world b))) c p =
   is_subscription (mgr (run gen ops (new_world b))) c p"
  using graph_inv_reachable [of gen ops b] by (simp add: graph_inv_def)

text \<open>
  C4: \<open>get(p)\<close> on a cached path returns \<open>Reply.OK\<close> of the cached value and leaves the
  world as it was: no generator call, no notification. On a path that is not cached it is
  \<open>update(p)\<close>. After an \<open>update(p)\<close> whose reply is not an error, \<open>get(p)\<close> serves the
  payload of that reply from the cache.
\<close>

theorem get_serves_cache:
  "get gen p w =
     (case cache (mgr w) p of Some v \<Rightarrow> (Inr (OK v), w) | None \<Rightarrow> update gen p w) \<and>
   (gen ''get'' p [] (backend w) = (r, b) \<and> \<not> isError r \<longrightarrow>
      get gen p (snd (update gen p w)) = (Inr (OK (payload r)), snd (update gen p w)))"
proof -
  have a: "get gen p w =
     (case cache (mgr w) p of Some v \<Rightarrow> (Inr (OK v), w) | None \<Rightarrow> update gen p w)"
    by (simp add: get_def cache_get_def split: option.splits)
  have b: "get gen p (snd (update gen p w)) = (Inr (OK (payload r)), snd (update gen p w))"
    if g: "gen ''get'' p [] (backend w) = (r, b)" and ok: "\<not> isError r"
    by (simp add: update_success [where gen=gen and w=w, OF g ok] get_def cache_get_def)
  show ?thesis using a b by blast
qed

theorem get_serves_cache_witness:
  "always found ''get'' ''/a'' [] (backend (new_world ())) = (found, ()) \<and> \<not> isError found \<and>
   get (always found) ''/a'' (snd (update (always found) ''/a'' (new_world ()))) =
     (Inr (OK (Val 7)), snd (update (always found) ''/a'' (new_world ()))) \<and>
   calls (trace (snd (get (always found) ''/a''
       (snd (update (always found) ''/a'' (new_world ())))))) = [(''get'', ''/a'', [])]"
proof -
  have h: "always found ''get'' ''/a'' [] (backend (new_world ())) = (found, ()) \<and> \<not> isError found"
    by (simp add: always_def found_def)
  have t: "calls (trace (snd (update (always found) ''/a'' (new_world ())))) = [(''get'', ''/a'', [])]"
    using update_calls [of "new_world ()" "always found" "''/a''"]
    by (simp add: added_def new_world_def)
  show ?thesis
    using get_serves_cache [of "always found" "''/a''" "new_world ()" found "()"] h t
    by (simp add: found_def)
qed


text \<open>
  C8: calling \<open>subscribe(c, p)\<close> twice in a row leaves both indexes of the subscription
  graph exactly as calling it once does. \<open>subscribe\<close> has no failing branch: each \<open>get\<close> it
  uses follows the \<open>has\<close> test that created the entry, so it returns a state and nothing
  else.
\<close>

theorem subscribe_idempotent:
  "subscribe c p (subscribe c p m) = subscribe c p m"
  by (simp add: subscribe_def Let_def members_def set_add_idem)

text \<open>
  C5: \<open>update(p)\<close> makes exactly one generator call, \<open>("get", p)\<close>. When the reply is not
  an error, \<open>update\<close> returns it, the cache maps \<open>p\<close> to its payload, the two indexes of
  the graph are untouched, and the notifications are \<open>(p, cached value)\<close> to the dependents
  of \<open>p\<close>, in their order, each made with the payload already in the cache; in a state
  reached from the empty one each dependent is notified exactly once.
\<close>

theorem update_success_fans_out:
  assumes "w = run gen ops (new_world b0)"
    and "gen ''get'' p [] (backend w) = (r, b)" and "\<not> isError r"
  shows "fst (update gen p w) = Inr r \<and>
         calls (added w (snd (update gen p w))) = [(''get'', p, [])] \<and>
         cache (mgr (snd (update gen p w))) p = Some (payload r) \<and>
         cache_get (mgr (snd (update gen p w))) p = payload r \<and>
         list_all (cache_written p (payload r)) (added w (snd (update gen p w))) \<and>
         dependents (mgr (snd (update gen p w))) = dependents (mgr w) \<and>
         subscriptions (mgr (snd (update gen p w))) = subscriptions (mgr w) \<and>
         notified (added w (snd (update gen p w))) =
           map (\<lambda>c. (c, p, cache_get (mgr (snd (update gen p w))) p))
             (members (dependents (mgr w)) p) \<and>
         (\<forall>c. is_dependent (mgr w) c p \<longrightarrow>
              count_list (notified (added w (snd (update gen p w)))) (c, p, payload r) = 1)"
proof -
  have inv: "graph_inv (mgr w)" unfolding assms(1) by (rule graph_inv_reachable)
  note u = update_success [where gen=gen and w=w, OF assms(2,3)]
  have once: "count_list (map (\<lambda>c. (c, p, payload r)) (members (dependents (mgr w)) p))
      (c, p, payload r) = 1" if "is_dependent (mgr w) c p" for c
    using that inv_distinct_deps [OF inv, of p]
    by (simp add: count_list_map_client is_dependent_def)
  show ?thesis
    using once
    by (simp add: u added_def cache_get_def notified_map_Notify calls_map_Notify list_all_iff)
qed

theorem update_success_fans_out_witness:
  "two_clients (always found) =
     run (always found) [Subscribe 1 ''/a'', Subscribe 2 ''/a''] (new_world ()) \<and>
   always found ''get'' ''/a'' [] (backend (two_clients (always found))) = (found, ()) \<and>
   \<not> isError found \<and>
   is_dependent (mgr (two_clients (always found))) 1 ''/a'' \<and>
   fst (update (always found) ''/a'' (two_clients (always found))) = Inr found \<and>
   cache (mgr (snd (update (always found) ''/a'' (two_clients (always found))))) ''/a'' =
     Some (Val 7) \<and>
   notified (added (two_clients (always found))
       (snd (update (always found) ''/a'' (two_clients (always found))))) =
     [(1, ''/a'', Val 7), (2, ''/a'', Val 7)] \<and>
   count_list (notified (added (two_clients (always found))
       (snd (update (always found) ''/a'' (two_clients (always found))))))
     (1, ''/a'', Val 7) = 1"
proof -
  let ?w = "two_clients (always found)"
  have h1: "?w = run (always found) [Subscribe 1 ''/a'', Subscribe 2 ''/a''] (new_world ())"
    by (simp add: two_clients_def)
  have h2: "always found ''get'' ''/a'' [] (backend ?w) = (found, ())"
    by (simp add: always_def)
  have h3: "\<not> isError found" and p: "payload found = Val 7"
    by (simp_all add: found_def)
  have m: "members (dependents (mgr ?w)) ''/a'' = [1, 2]"
    by (simp add: two_clients_members)
  note t = update_success_fans_out [OF h1 h2 h3]
  have d: "is_dependent (mgr ?w) 1 ''/a''"
    by (simp add: is_dependent_def m)
  from t have c1: "fst (update (always found) ''/a'' ?w) = Inr found" by blast
  from t have "cache (mgr (snd (update (always found) ''/a'' ?w))) ''/a'' = Some (payload found)"
    by blast
  then have c2: "cache (mgr (snd (update (always found) ''/a'' ?w))) ''/a'' = Some (Val 7)"
    by (simp add: p)
  from t have v: "cache_get (mgr (snd (update (always found) ''/a'' ?w))) ''/a'' = payload found"
    by blast
  from t have "notified (added ?w (snd (update (always found) ''/a'' ?w))) =
      map (\<lambda>c. (c, ''/a'', cache_get (mgr (snd (update (always found) ''/a'' ?w))) ''/a''))
        (members (dependents (mgr ?w)) ''/a'')" by blast
  then have c3: "notified (added ?w (snd (update (always found) ''/a'' ?w))) =
      [(1, ''/a'', Val 7), (2, ''/a'', Val 7)]" by (simp add: m v p)
  from t d have "count_list (notified (added ?w (snd (update (always found) ''/a'' ?w))))
      (1, ''/a'', payload found) = 1" by blast
  then have c4: "count_list (notified (added ?w (snd (update (always found) ''/a'' ?w))))
      (1, ''/a'', Val 7) = 1" by (simp only: p)
  show ?thesis
    by (intro conjI h1 h2 h3 d c1 c2 c3 c4)
qed

text \<open>
  C6: in any state, when \<open>update(p)\<close> gets an error reply whose status is not 404 it
  returns that reply and changes nothing but what the generator call itself did: the
  manager (cache, dependents and subscriptions) is the one from before the call and no
  client is notified.
\<close>

theorem update_other_error_inert:
  assumes "gen ''get'' p [] (backend w) = (r, b)" and "isError r" and "status r \<noteq> 404"
  shows "update gen p w = (Inr r, w\<lparr>backend := b, trace := trace w @ [Call ''get'' p []]\<rparr>) \<and>
         mgr (snd (update gen p w)) = mgr w \<and>
         notified (added w (snd (update gen p w))) = []"
  by (simp add: update_other_error [where gen=gen and w=w, OF assms] added_def)

theorem update_other_error_inert_witness:
  "always failed ''get'' ''/a'' [] (backend (two_clients (always failed))) = (failed, ()) \<and>
   isError failed \<and> status failed \<noteq> 404 \<and>
   is_dependent (mgr (two_clients (always failed))) 1 ''/a'' \<and>
   fst (update (always failed) ''/a'' (two_clients (always failed))) = Inr failed \<and>
   mgr (snd (update (always failed) ''/a'' (two_clients (always failed)))) =
     mgr (two_clients (always failed)) \<and>
   notified (added (two_clients (always failed))
     (snd (update (always failed) ''/a'' (two_clients (always failed))))) = []"
proof -
  let ?w = "two_clients (always failed)"
  have h1: "always failed ''get'' ''/a'' [] (backend ?w) = (failed, ())"
    by (simp add: always_def)
  have h2: "isError failed" and h3: "status failed \<noteq> 404"
    by (simp_all add: failed_def)
  note t = update_other_error_inert [where gen="always failed" and w="?w", OF h1 h2 h3]
  have d: "is_dependent (mgr ?w) 1 ''/a''"
    by (simp add: is_dependent_def two_clients_members)
  from t have "update (always failed) ''/a'' ?w =
      (Inr failed, ?w\<lparr>backend := (), trace := trace ?w @ [Call ''get'' ''/a'' []]\<rparr>)" by blast
  then have c1: "fst (update (always failed) ''/a'' ?w) = Inr failed" by simp
  from t have c2: "mgr (snd (update (always failed) ''/a'' ?w)) = mgr ?w" by blast
  from t have c3: "notified (added ?w (snd (update (always failed) ''/a'' ?w))) = []" by blast
  show ?thesis
    by (intro conjI h1 h2 h3 d c1 c2 c3)
qed




text \<open>
  C9: when the generator call of \<open>post\<close>, \<open>put\<close>, \<open>patch\<close> or \<open>delete\<close> itself returns an
  error, of any status, 404 included, the reply is returned and nothing else happens: the
  manager (the cache entry for \<open>p\<close>, the dependents and the subscriptions) is unchanged, no
  client is notified and no further generator call is made.
\<close>

theorem failed_mutation_inert:
  assumes "(verb, args, f) \<in> {(''post'', [d], post gen p d), (''put'', [d], put gen p d),
             (''patch'', [d], patch gen p d), (''delete'', [Null], delete gen p)}"
    and "gen verb p args (backend w) = (r, b)" and "isError r"
  shows "f w = (Inr r, w\<lparr>backend := b, trace := trace w @ [Call verb p args]\<rparr>) \<and>
         mgr (snd (f w)) = mgr w \<and>
         notified (added w (snd (f w))) = [] \<and>
         calls (added w (snd (f w))) = [(verb, p, args)]"
proof -
  from assms(1) have f: "f = mutate gen verb p args"
    by (auto simp: post_mutate put_mutate patch_mutate delete_mutate)
  show ?thesis
    using assms(3)
    by (simp add: f mutate_eq [where gen=gen and w=w, OF assms(2)] added_def)
qed

theorem failed_mutation_inert_witness:
  "(''delete'', [Null], delete (always not_found) ''/a'') \<in>
     {(''post'', [Val 3], post (always not_found) ''/a'' (Val 3)),
      (''put'', [Val 3], put (always not_found) ''/a'' (Val 3)),
      (''patch'', [Val 3], patch (always not_found) ''/a'' (Val 3)),
      (''delete'', [Null], delete (always not_found) ''/a'')} \<and>
   always not_found ''delete'' ''/a'' [Null] (backend (two_clients (always not_found))) =
     (not_found, ()) \<and>
   isError not_found \<and> status not_found = 404 \<and>
   is_dependent (mgr (two_clients (always not_found))) 1 ''/a'' \<and>
   fst (delete (always not_found) ''/a'' (two_clients (always not_found))) = Inr not_found \<and>
   mgr (snd (delete (always not_found) ''/a'' (two_clients (always not_found)))) =
     mgr (two_clients (always not_found)) \<and>
   is_dependent (mgr (snd (delete (always not_found) ''/a'' (two_clients (always not_found)))))
     1 ''/a''"
proof -
  let ?w = "two_clients (always not_found)"
  have h1: "(''delete'', [Null], delete (always not_found) ''/a'') \<in>
     {(''post'', [Val 3], post (always not_found) ''/a'' (Val 3)),
      (''put'', [Val 3], put (always not_found) ''/a'' (Val 3)),
      (''patch'', [Val 3], patch (always not_found) ''/a'' (Val 3)),
      (''delete'', [Null], delete (always not_found) ''/a'')}"
    by simp
  have h2: "always not_found ''delete'' ''/a'' [Null] (backend ?w) = (not_found, ())"
    by (simp add: always_def)
  have h3: "isError not_found" and h4: "status not_found = 404"
    by (simp_all add: not_found_def)
  note t = failed_mutation_inert [OF h1 h2 h3]
  have d: "is_dependent (mgr ?w) 1 ''/a''"
    by (simp add: is_dependent_def two_clients_members)
  from t have "delete (always not_found) ''/a'' ?w =
      (Inr not_found, ?w\<lparr>backend := (), trace := trace ?w @ [Call ''delete'' ''/a'' [Null]]\<rparr>)"
    by blast
  then have c1: "fst (delete (always not_found) ''/a'' ?w) = Inr not_found" by simp
  from t have c2: "mgr (snd (delete (always not_found) ''/a'' ?w)) = mgr ?w" by blast
  have c3: "is_dependent (mgr (snd (delete (always not_found) ''/a'' ?w))) 1 ''/a''"
    using d by (simp only: c2)
  show ?thesis
    by (intro conjI h1 h2 h3 h4 d c1 c2 c3)
qed

text \<open>
  C10: once \<open>subscribe(c, p)\<close> has run in a state reached from the empty one, every state
  reached afterwards has an entry for \<open>c\<close> in \<open>subscriptions\<close> and an entry for \<open>p\<close> in
  \<open>dependents\<close>, whatever \<open>unsubscribe\<close> calls and 404 evictions came in between. In any
  such state \<open>unsubscribe(c)\<close> without a path returns normally and leaves \<open>c\<close> mapped to
  the empty set.
\<close>

theorem entries_persist:
  assumes "w = run gen (ops0 @ Subscribe c p # ops) (new_world b)"
  shows "subscriptions (mgr w) c \<noteq> None \<and> dependents (mgr w) p \<noteq> None \<and>
         fst (unsubscribe c None (mgr w)) = Inr () \<and>
         subscriptions (snd (unsubscribe c None (mgr w))) c = Some []"
proof -
  let ?w0 = "run gen ops0 (new_world b)"
  let ?w1 = "exec gen (Subscribe c p) ?w0"
  have w: "w = run gen ops ?w1" by (simp add: assms run_def)
  have k1: "subscriptions (mgr ?w1) c \<noteq> None \<and> dependents (mgr ?w1) p \<noteq> None"
    using subscribe_has_keys [of c p "mgr ?w0"] by simp
  have kept: "keys_kept (mgr ?w1) (mgr w)" unfolding w by (rule run_keys_kept)
  have a: "subscriptions (mgr w) c \<noteq> None" and b: "dependents (mgr w) p \<noteq> None"
    using k1 kept by (simp_all add: keys_kept_def)
  have inv: "graph_inv (mgr w)" unfolding assms by (rule graph_inv_reachable)
  from a obtain subs where s: "subscriptions (mgr w) c = Some subs" by auto
  then have ms: "members (subscriptions (mgr w)) c = subs" by (rule members_Some)
  have u: "unsubscribe c None (mgr w) = unsubscribe_each c subs (mgr w)"
    using s by (simp add: unsubscribe_if truthy_def)
  have d: "distinct subs" using inv_distinct_subs [OF inv, of c] ms by simp
  have sub: "set subs \<subseteq> set (members (subscriptions (mgr w)) c)" using ms by simp
  note spec = unsubscribe_each_spec [OF inv d sub]
  have e: "members (subscriptions (snd (unsubscribe_each c subs (mgr w)))) c = []"
    using spec ms by simp
  have n: "subscriptions (snd (unsubscribe_each c subs (mgr w))) c \<noteq> None"
    using spec a by simp
  have "subscriptions (snd (unsubscribe_each c subs (mgr w))) c = Some []"
    using e n by (auto simp: members_def)
  then show ?thesis using a b spec by (simp add: u)
qed

theorem entries_persist_witness:
  "subscriptions (mgr (run (always not_found)
       ([] @ Subscribe 1 ''/a'' # [Update ''/a'']) (new_world ()))) 1 = Some [] \<and>
   dependents (mgr (run (always not_found)
       ([] @ Subscribe 1 ''/a'' # [Update ''/a'']) (new_world ()))) ''/a'' \<noteq> None \<and>
   fst (unsubscribe 1 None (mgr (run (always not_found)
       ([] @ Subscribe 1 ''/a'' # [Update ''/a'']) (new_world ())))) = Inr ()"
proof -
  let ?w = "run (always not_found) ([] @ Subscribe 1 ''/a'' # [Update ''/a'']) (new_world ())"
  have s: "subscriptions (mgr ?w) 1 = Some []"
    by (simp add: run_def new_world_def new_manager_def subscribe_def Let_def members_def
        set_add_def update_def generator_def always_def not_found_def unsubscribe_if truthy_def
        unsubscribe_target_def set_delete_def invoke_def)
  show ?thesis
    using entries_persist [of ?w "always not_found" "[]" 1 "''/a''" "[Update ''/a'']" "()", OF refl] s
    by simp
qed

end
